theory Spec2Isabelle
  imports Main
begin

section \<open>Text primitives shared by the miner and the cleaning stage\<close>

text \<open>
  Python strings are modelled as \<open>string\<close> (a list of 8-bit characters), so the
  development speaks about ASCII text. \<open>str.lower()\<close> maps the letters A to Z to a to z
  and leaves every other ASCII character alone.
\<close>

definition lower_char :: "char \<Rightarrow> char" where
  "lower_char c =
     (case map_of (zip ''ABCDEFGHIJKLMNOPQRSTUVWXYZ'' ''abcdefghijklmnopqrstuvwxyz'') c of
        None \<Rightarrow> c
      | Some d \<Rightarrow> d)"

definition lower :: "string \<Rightarrow> string" where
  "lower s = map lower_char s"

text \<open>
  \<open>startswith t k\<close> is Python's \<open>t.startswith(k)\<close>; \<open>str_in k t\<close> is the substring
  test \<open>k in t\<close> (the empty string occurs in every string).
\<close>

fun startswith :: "string \<Rightarrow> string \<Rightarrow> bool" where
  "startswith t [] = True"
| "startswith [] (k # ks) = False"
| "startswith (c # t) (k # ks) = (c = k \<and> startswith t ks)"

fun str_in :: "string \<Rightarrow> string \<Rightarrow> bool" where
  "str_in k [] = (k = [])"
| "str_in k (c # t) = (startswith (c # t) k \<or> str_in k t)"

section \<open>mine\_issues.py: configuration tables and classifiers\<close>

definition SEARCH_TERMS :: "string list" where
  "SEARCH_TERMS =
     [''i18n'', ''l10n'', ''localization'', ''internationalization'', ''translation'',
      ''missing translation'', ''mistranslation'', ''locale'', ''date format'',
      ''time format'', ''currency'',
      ''rtl'', ''right-to-left'',
      ''wrong translation'', ''not translated'', ''text direction'', ''mirrored layout'']"

text \<open>\<open>BUG_TYPES\<close> is a dict literal; iteration follows insertion order, so it is an
  association list here.\<close>

definition BUG_TYPES :: "(string \<times> string list) list" where
  "BUG_TYPES =
     [(''truncation'', [''truncate'', ''truncated'', ''cut off'', ''clipping'', ''overflow'']),
      (''missing_translation'', [''missing translation'', ''not translated'', ''no translation'']),
      (''mistranslation'', [''wrong translation'', ''incorrect translation'', ''mistranslation'']),
      (''locale_issue'', [''locale'', ''region'', ''timezone'', ''date format'', ''time format'']),
      (''overlap_ui'', [''overlap'', ''misalignment'', ''layout issue'', ''UI issue'']),
      (''encoding'', [''encoding'', ''utf-8'', ''unicode'', ''character set'']),
      (''rtl_issue'', [''rtl'', ''right-to-left'', ''bidirectional'', ''bidi'', ''text direction'',
                       ''mirrored layout''])]"

text \<open>\<open>detect_bug_types(title, body)\<close>: \<open>None\<close> stands for a missing title or body
  (\<open>title or ''\<close>).\<close>

definition detect_bug_types :: "string option \<Rightarrow> string option \<Rightarrow> string list" where
  "detect_bug_types title body =
     (let text = lower (case_option [] id title @ '' '' @ case_option [] id body)
      in map fst (filter (\<lambda>(bug_type, keywords). list_ex (\<lambda>k. str_in k text) keywords) BUG_TYPES))"

text \<open>
  \<open>detect_search_terms(text, term)\<close>: the configured terms found in the text, in table
  order, and the triggering term appended when the comprehension did not yield it.
\<close>

definition detect_search_terms :: "string \<Rightarrow> string \<Rightarrow> string list" where
  "detect_search_terms text term =
     (let found_terms = filter (\<lambda>t. str_in (lower t) (lower text)) SEARCH_TERMS
      in if term \<notin> set found_terms then found_terms @ [term] else found_terms)"

section \<open>clean\_data.py: the bug-keyword filter\<close>

text \<open>
  The list literal of the source has no comma after \<open>"not working"\<close>: the comment line
  that follows does not separate the two literals, so Python joins \<open>"not working"\<close> and
  \<open>"not translated"\<close> into one element. The append below is that implicit concatenation.
\<close>

definition BUG_KEYWORDS :: "string list" where
  "BUG_KEYWORDS =
     [''bug'', ''fix'', ''error'', ''fail'', ''failure'', ''issue'', ''problem'',
      ''broken'', ''incorrect'', ''wrong'', ''unexpected'', ''missing'',
      ''lost'', ''typo'', ''properly'', ''failing'', ''failed'', ''does not work'',
      ''doesn't work'', ''not working'' @
      ''not translated'', ''wrong translation'', ''missing translation'',
      ''mistranslation'', ''translation missing'']"

definition contains_bug_keyword :: "string \<Rightarrow> bool" where
  "contains_bug_keyword text =
     (if text = [] then False
      else let t = lower text in list_ex (\<lambda>k. str_in k t) BUG_KEYWORDS)"

section \<open>mine\_issues.py: dates and quarters\<close>

text \<open>
  A \<open>datetime\<close> at midnight is modelled by its proleptic Gregorian ordinal, the day
  number that \<open>datetime.toordinal()\<close> returns (1 for 0001-01-01), as an unbounded
  \<open>int\<close>; subtracting \<open>timedelta(days=n)\<close> subtracts \<open>n\<close>, comparison is comparison
  of day numbers. The range check of Python's datetime (years 1 to 9999) is not part of
  the model. \<open>is_leap\<close>, \<open>days_in_month\<close>, \<open>days_before_year\<close> and
  \<open>days_before_month\<close> are the calendar of Python's datetime module.
\<close>

definition is_leap :: "int \<Rightarrow> bool" where
  "is_leap y = (y mod 4 = 0 \<and> (y mod 100 \<noteq> 0 \<or> y mod 400 = 0))"

definition days_in_month :: "int \<Rightarrow> int \<Rightarrow> int" where
  "days_in_month y m =
     (if m = 2 then (if is_leap y then 29 else 28)
      else if m = 4 \<or> m = 6 \<or> m = 9 \<or> m = 11 then 30 else 31)"

definition days_before_year :: "int \<Rightarrow> int" where
  "days_before_year y = (let p = y - 1 in p * 365 + p div 4 - p div 100 + p div 400)"

definition days_before_month :: "int \<Rightarrow> int \<Rightarrow> int" where
  "days_before_month y m =
     [0, 31, 59, 90, 120, 151, 181, 212, 243, 273, 304, 334] ! nat (m - 1)
       + (if m > 2 \<and> is_leap y then 1 else 0)"

definition datetime :: "int \<Rightarrow> int \<Rightarrow> int \<Rightarrow> int" where
  "datetime y m d = days_before_year y + days_before_month y m + d"

text \<open>The \<open>quarters\<close> table of \<open>main\<close>: first and last month of Q1 to Q4.\<close>

definition quarters :: "(int \<times> int) list" where
  "quarters = [(1, 3), (4, 6), (7, 9), (10, 12)]"

text \<open>The \<open>if/elif/else\<close> chain of \<open>main\<close> that picks the last day of month \<open>m_end\<close>.\<close>

definition last_day :: "int \<Rightarrow> int \<Rightarrow> int" where
  "last_day year m_end =
     (if m_end \<in> set [1, 3, 5, 7, 8, 10, 12] then 31
      else if m_end = 2 then
        (if year mod 4 = 0 \<and> (year mod 100 \<noteq> 0 \<or> year mod 400 = 0) then 29 else 28)
      else 30)"

text \<open>The year, month and day handed to \<open>datetime(year, m_end, last_day)\<close> for a
  quarter, and the two bounds \<open>q_start\<close> and \<open>q_end\<close>.\<close>

definition q_end_date :: "int \<Rightarrow> int \<times> int \<Rightarrow> int \<times> int \<times> int" where
  "q_end_date year q = (case q of (m_start, m_end) \<Rightarrow> (year, m_end, last_day year m_end))"

definition q_start :: "int \<Rightarrow> int \<times> int \<Rightarrow> int" where
  "q_start year q = (case q of (m_start, m_end) \<Rightarrow> datetime year m_start 1)"

definition q_end :: "int \<Rightarrow> int \<times> int \<Rightarrow> int" where
  "q_end year q = (case q_end_date year q of (y, m, d) \<Rightarrow> datetime y m d)"

section \<open>mine\_issues.py: the window loop of a quarter\<close>

text \<open>
  The \<open>while current_start >= q_start\<close> loop of \<open>main\<close>, with the work done for one
  window as the parameter \<open>visit\<close> (called with \<open>interval_start\<close> and \<open>current_end\<close>).
  For \<open>DATE_INTERVAL_DAYS \<le> 0\<close> the source loop never leaves the quarter, so the loop
  is a partial function: \<open>None\<close> is "does not return".
\<close>

partial_function (option) window_loop ::
  "(int \<Rightarrow> int \<Rightarrow> 's \<Rightarrow> 's) \<Rightarrow> int \<Rightarrow> int \<Rightarrow> int \<Rightarrow> 's \<Rightarrow> 's option" where
  "window_loop visit DATE_INTERVAL_DAYS qs current_start s =
     (if current_start \<ge> qs then
        let current_end = current_start;
            interval_start = max qs (current_start - (DATE_INTERVAL_DAYS - 1))
        in window_loop visit DATE_INTERVAL_DAYS qs (interval_start - 1)
             (visit interval_start current_end s)
      else Some s)"

declare window_loop.simps [code]

text \<open>The windows of a quarter in the order the loop visits them, as
  \<open>(interval_start, current_end)\<close> pairs.\<close>

definition windows :: "int \<Rightarrow> int \<Rightarrow> int \<Rightarrow> (int \<times> int) list option" where
  "windows DATE_INTERVAL_DAYS qs qe =
     window_loop (\<lambda>interval_start current_end ws. ws @ [(interval_start, current_end)])
       DATE_INTERVAL_DAYS qs qe []"

text \<open>The days of a window, ascending.\<close>

definition span :: "int \<times> int \<Rightarrow> int list" where
  "span w = [fst w..snd w]"

section \<open>mine\_issues.py: the pager \<open>fetch_issues_by_date\<close>\<close>

text \<open>
  A search result item, with the fields the miner reads. \<open>item_body\<close> is \<open>None\<close> for a
  JSON null; \<open>item_labels\<close> holds the label names.
\<close>

record raw_item =
  item_id :: int
  item_title :: string
  item_body :: "string option"
  item_html_url :: string
  item_repository_url :: string
  item_labels :: "string list"
  item_comments_url :: string
  item_created_at :: string

text \<open>The dict appended to \<open>issues\<close> for every item, field by field.\<close>

record issue =
  issue_id :: int
  repo_full :: string
  repo :: string
  title :: string
  url :: string
  body :: string
  labels :: "string list"
  image_urls :: "string list"
  bug_types :: "string list"
  search_terms_found :: "string list"
  created_at :: string

text \<open>\<open>split_last sep s\<close> is \<open>s.split(sep)[-1]\<close> for a non-empty separator: the text
  after the last piece boundary found by the left-to-right scan.\<close>

fun split_last_from :: "string \<Rightarrow> string \<Rightarrow> string \<Rightarrow> string" where
  "split_last_from sep piece [] = piece"
| "split_last_from sep piece (c # t) =
     (if startswith (c # t) sep then split_last_from sep [] (drop (length sep - 1) t)
      else split_last_from sep (piece @ [c]) t)"

definition split_last :: "string \<Rightarrow> string \<Rightarrow> string" where
  "split_last sep s = split_last_from sep [] s"

text \<open>
  The enrichment of one item inside the page loop. The regular-expression scan
  \<open>extract_image_urls\<close> and the comment request \<open>fetch_issue_comments\<close> (which catches
  every failure and returns a list) are parameters.
\<close>

definition make_issue ::
  "(string \<Rightarrow> string list) \<Rightarrow> (string \<Rightarrow> string list) \<Rightarrow> string \<Rightarrow> raw_item \<Rightarrow> issue" where
  "make_issue extract_image_urls fetch_issue_comments term item =
     (let b = (case item_body item of None \<Rightarrow> [] | Some x \<Rightarrow> x);
          images = extract_image_urls b @ fetch_issue_comments (item_comments_url item);
          repo_full_name = split_last ''repos/'' (item_repository_url item);
          text = item_title item @ '' '' @ b
      in \<lparr> issue_id = item_id item,
           repo_full = repo_full_name,
           repo = split_last ''/'' repo_full_name,
           title = item_title item,
           url = item_html_url item,
           body = b,
           labels = item_labels item,
           image_urls = images,
           bug_types = detect_bug_types (Some (item_title item)) (Some b),
           search_terms_found = detect_search_terms text term,
           created_at = item_created_at item \<rparr>)"

text \<open>
  What \<open>requests.get\<close> gives for one page request: the exception
  \<open>RequestException\<close>, or a response with its status code and the \<open>items\<close> of its JSON
  body. The server is an oracle \<open>net\<close>: the answer to the \<open>k\<close>-th request of a call
  (counted from 0) when it asks for page \<open>page\<close>.
\<close>

datatype response = ConnectionError | Http int "raw_item list"

text \<open>The effects of a call that are visible from outside: page requests and sleeps
  (in seconds), in the order they happen.\<close>

datatype event = Fetching int | Sleep nat

record pager_state =
  requests_made :: nat
  events :: "event list"
  issues :: "issue list"

text \<open>
  The body of \<open>for page in range(1, MAX_PAGES + 1)\<close>, over the pages still to come.
  \<open>continue\<close> is the recursive call on the remaining pages, \<open>break\<close> returns the state.
\<close>

fun pager ::
  "(nat \<Rightarrow> int \<Rightarrow> response) \<Rightarrow> (raw_item \<Rightarrow> issue) \<Rightarrow> int list \<Rightarrow> pager_state \<Rightarrow> pager_state" where
  "pager net enrich [] st = st"
| "pager net enrich (page # pages) st =
     (let st1 = st\<lparr>requests_made := Suc (requests_made st),
                   events := events st @ [Fetching page]\<rparr>
      in case net (requests_made st) page of
           ConnectionError \<Rightarrow> pager net enrich pages st1
         | Http status_code items \<Rightarrow>
             if status_code = 403 then
               pager net enrich pages (st1\<lparr>events := events st1 @ [Sleep 60]\<rparr>)
             else if status_code \<noteq> 200 then st1
             else if items = [] then st1
             else pager net enrich pages
                    (st1\<lparr>issues := issues st1 @ map enrich items,
                         events := events st1 @ [Sleep 1]\<rparr>))"

definition fetch_issues_by_date ::
  "(nat \<Rightarrow> int \<Rightarrow> response) \<Rightarrow> (raw_item \<Rightarrow> issue) \<Rightarrow> int \<Rightarrow> pager_state" where
  "fetch_issues_by_date net enrich MAX_PAGES =
     pager net enrich [1..MAX_PAGES] \<lparr>requests_made = 0, events = [], issues = []\<rparr>"

text \<open>Reading a trace: the page numbers requested, and the number of 60-second
  cooldowns.\<close>

fun requested_pages :: "event list \<Rightarrow> int list" where
  "requested_pages [] = []"
| "requested_pages (Fetching p # es) = p # requested_pages es"
| "requested_pages (Sleep n # es) = requested_pages es"

definition cooldowns :: "event list \<Rightarrow> nat" where
  "cooldowns es = length (filter (\<lambda>e. e = Sleep 60) es)"

text \<open>A simulated response sequence: the \<open>k\<close>-th request gets the \<open>k\<close>-th response
  whatever page it asks for, and an empty page once the script is used up.\<close>

definition scripted :: "response list \<Rightarrow> nat \<Rightarrow> int \<Rightarrow> response" where
  "scripted rs k page = (if k < length rs then rs ! k else Http 200 [])"

section \<open>mine\_issues.py: crawling one quarter\<close>

text \<open>
  The state of a quarter is \<open>(seen_urls, quarter_issues)\<close>. \<open>add_issue\<close> is the body of
  \<open>for issue in issues\<close>; \<open>visit_window\<close> is the body of the window loop: every search
  term in table order, \<open>fetch term since until\<close> being the list that
  \<open>fetch_issues_by_date\<close> returns for that term and window.
\<close>

definition add_issue :: "issue \<Rightarrow> string set \<times> issue list \<Rightarrow> string set \<times> issue list" where
  "add_issue i st =
     (case st of (seen_urls, quarter_issues) \<Rightarrow>
        if url i \<notin> seen_urls then (insert (url i) seen_urls, quarter_issues @ [i])
        else (seen_urls, quarter_issues))"

definition visit_window ::
  "(string \<Rightarrow> int \<Rightarrow> int \<Rightarrow> issue list) \<Rightarrow> int \<Rightarrow> int
     \<Rightarrow> string set \<times> issue list \<Rightarrow> string set \<times> issue list" where
  "visit_window fetch since until st =
     fold (\<lambda>term st'. fold add_issue (fetch term since until) st') SEARCH_TERMS st"

definition crawl_quarter ::
  "(string \<Rightarrow> int \<Rightarrow> int \<Rightarrow> issue list) \<Rightarrow> int \<Rightarrow> int \<Rightarrow> int \<Rightarrow> issue list option" where
  "crawl_quarter fetch DATE_INTERVAL_DAYS qs qe =
     map_option snd (window_loop (visit_window fetch) DATE_INTERVAL_DAYS qs qe ({}, []))"

text \<open>What is handed to \<open>save_to_json\<close> for the quarter: \<open>total_collected\<close> and
  \<open>issues_with_images\<close>.\<close>

definition process_quarter ::
  "(string \<Rightarrow> int \<Rightarrow> int \<Rightarrow> issue list) \<Rightarrow> int \<Rightarrow> int \<Rightarrow> int \<Rightarrow> (nat \<times> issue list) option" where
  "process_quarter fetch DATE_INTERVAL_DAYS qs qe =
     map_option
       (\<lambda>quarter_issues. (length quarter_issues, filter (\<lambda>i. image_urls i \<noteq> []) quarter_issues))
       (crawl_quarter fetch DATE_INTERVAL_DAYS qs qe)"

text \<open>Everything the search terms of all windows return, in the order the loops see it:
  windows in visiting order, terms in table order.\<close>

definition observed ::
  "(string \<Rightarrow> int \<Rightarrow> int \<Rightarrow> issue list) \<Rightarrow> (int \<times> int) list \<Rightarrow> issue list" where
  "observed fetch ws =
     concat (map (\<lambda>w. concat (map (\<lambda>term. fetch term (fst w) (snd w)) SEARCH_TERMS)) ws)"

text \<open>
  The dedup invariant of the quarter state after the loops have seen the list \<open>obs\<close>:
  the seen set and the collected issues carry exactly the URLs of \<open>obs\<close>, no URL twice,
  and each collected issue is the first issue of \<open>obs\<close> with its URL.
\<close>

abbreviation dedup_inv :: "issue list \<Rightarrow> string set \<times> issue list \<Rightarrow> bool" where
  "dedup_inv obs st \<equiv>
     fst st = url ` set obs \<and> url ` set (snd st) = url ` set obs \<and> distinct (map url (snd st))
     \<and> (\<forall>i\<in>set (snd st). find (\<lambda>j. url j = url i) obs = Some i)"

section \<open>mine\_issues.py: the campaign driver \<open>main\<close>\<close>

text \<open>The module-level defaults, and the parsed command line (each option defaults to
  the constant of the same name, \<open>--start-quarter\<close> to 1).\<close>

definition START_YEAR :: int where "START_YEAR = 2025"
definition END_YEAR :: int where "END_YEAR = 2015"
definition DATE_INTERVAL_DAYS :: int where "DATE_INTERVAL_DAYS = 30"
definition MAX_PAGES :: int where "MAX_PAGES = 1"
definition RESULTS_PER_PAGE :: int where "RESULTS_PER_PAGE = 10"

record args =
  start_year :: int
  end_year :: int
  interval_days :: int
  max_pages :: int
  per_page :: int
  start_quarter :: int

definition default_args :: args where
  "default_args =
     \<lparr> start_year = START_YEAR, end_year = END_YEAR, interval_days = DATE_INTERVAL_DAYS,
       max_pages = MAX_PAGES, per_page = RESULTS_PER_PAGE, start_quarter = 1 \<rparr>"

text \<open>\<open>range(start, stop, -1)\<close>: \<open>start, start - 1, ...\<close> down to \<open>stop + 1\<close>, empty
  when \<open>start \<le> stop\<close>.\<close>

definition range_down :: "int \<Rightarrow> int \<Rightarrow> int list" where
  "range_down start stop = rev [stop + 1..start]"

text \<open>The years of \<open>for year in range(END_YEAR, START_YEAR - 1, -1)\<close>, after the
  globals were set from the command line.\<close>

definition campaign_years :: "args \<Rightarrow> int list" where
  "campaign_years a = range_down (end_year a) (start_year a - 1)"

fun enumerate_from :: "int \<Rightarrow> 'a list \<Rightarrow> (int \<times> 'a) list" where
  "enumerate_from n [] = []"
| "enumerate_from n (x # xs) = (n, x) # enumerate_from (n + 1) xs"

text \<open>
  The quarter loop of one year, as the list of quarters that reach the crawl:
  \<open>continue\<close> for an index below \<open>--start-quarter\<close>, \<open>break\<close> at the first quarter that
  starts after \<open>today\<close>. \<open>today\<close> is the day number of \<open>datetime.utcnow()\<close>: a quarter
  starts at midnight, so it is later than now exactly when its day number is larger.
\<close>

fun year_quarters :: "int \<Rightarrow> int \<Rightarrow> int \<Rightarrow> (int \<times> int \<times> int) list \<Rightarrow> (int \<times> int) list" where
  "year_quarters today sq year [] = []"
| "year_quarters today sq year ((q_index, q) # rest) =
     (if q_index < sq then year_quarters today sq year rest
      else if q_start year q > today then []
      else (year, q_index) # year_quarters today sq year rest)"

text \<open>All \<open>(year, q_index)\<close> pairs that are crawled and saved, in processing order.\<close>

definition schedule :: "args \<Rightarrow> int \<Rightarrow> (int \<times> int) list" where
  "schedule a today =
     concat (map (\<lambda>year. year_quarters today (start_quarter a) year (enumerate_from 1 quarters))
                 (campaign_years a))"

text \<open>The quarter indices processed in year \<open>y\<close>.\<close>

definition quarters_done :: "args \<Rightarrow> int \<Rightarrow> int \<Rightarrow> int list" where
  "quarters_done a today y = map snd (filter (\<lambda>yq. fst yq = y) (schedule a today))"

text \<open>
  The run: each scheduled quarter is crawled and its \<open>(total_collected,
  issues_with_images)\<close> saved under \<open>(year, q_index)\<close>. \<open>world term since until\<close> is
  the server as seen by the pager call for that term and window.
\<close>

fun run_quarters ::
  "(string \<Rightarrow> int \<Rightarrow> int \<Rightarrow> issue list) \<Rightarrow> int \<Rightarrow> (int \<times> int) list
     \<Rightarrow> ((int \<times> int) \<times> nat \<times> issue list) list option" where
  "run_quarters fetch n [] = Some []"
| "run_quarters fetch n ((year, q_index) # rest) =
     (let q = quarters ! nat (q_index - 1)
      in case process_quarter fetch n (q_start year q) (q_end year q) of
           None \<Rightarrow> None
         | Some saved \<Rightarrow> map_option ((#) ((year, q_index), saved)) (run_quarters fetch n rest))"

definition main ::
  "args \<Rightarrow> int \<Rightarrow> (string \<Rightarrow> int \<Rightarrow> int \<Rightarrow> nat \<Rightarrow> int \<Rightarrow> response)
     \<Rightarrow> (string \<Rightarrow> string list) \<Rightarrow> (string \<Rightarrow> string list)
     \<Rightarrow> ((int \<times> int) \<times> nat \<times> issue list) list option" where
  "main a today world extract_image_urls fetch_issue_comments =
     run_quarters
       (\<lambda>term since until.
          issues (fetch_issues_by_date (world term since until)
                    (make_issue extract_image_urls fetch_issue_comments term) (max_pages a)))
       (interval_days a) (schedule a today)"

section \<open>Sample data for the concrete checks\<close>

text \<open>
  An issue with the given id, URL, image list and matched terms, and a server that
  answers three (term, window) pairs of Q1 2021: the same URL \<open>u1\<close> under two terms of
  the newest window, and the URL \<open>u2\<close> in the newest and in the oldest window.
\<close>

definition sample_issue :: "int \<Rightarrow> string \<Rightarrow> string list \<Rightarrow> string list \<Rightarrow> issue" where
  "sample_issue n u images terms =
     \<lparr> issue_id = n, repo_full = ''o/r'', repo = ''r'', title = ''t'', url = u, body = [],
       labels = [], image_urls = images, bug_types = [], search_terms_found = terms,
       created_at = [] \<rparr>"

definition sample_fetch :: "string \<Rightarrow> int \<Rightarrow> int \<Rightarrow> issue list" where
  "sample_fetch term since until =
     (if term = ''i18n'' \<and> until = datetime 2021 3 31 then
        [sample_issue 1 ''u1'' [''a.png''] [''i18n'']]
      else if term = ''l10n'' \<and> until = datetime 2021 3 31 then
        [sample_issue 1 ''u1'' [''a.png''] [''l10n''], sample_issue 2 ''u2'' [] [''l10n'']]
      else if term = ''i18n'' \<and> until = datetime 2021 1 30 then
        [sample_issue 2 ''u2'' [] [''i18n'']]
      else [])"

text \<open>
  A search result item, the enrichment used with it (no image in the body, no comment
  images, found through the term \<open>i18n\<close>), and a command line with
  \<open>--start-year 2020 --end-year 2021 --start-quarter 3\<close>.
\<close>

definition sample_item :: raw_item where
  "sample_item =
     \<lparr> item_id = 7, item_title = ''Menu not translated'', item_body = None,
       item_html_url = ''https://github.com/o/r/issues/7'',
       item_repository_url = ''https://api.github.com/repos/o/r'', item_labels = [],
       item_comments_url = ''https://api.github.com/repos/o/r/issues/7/comments'',
       item_created_at = ''2021-01-05T00:00:00Z'' \<rparr>"

definition sample_enrich :: "raw_item \<Rightarrow> issue" where
  "sample_enrich = make_issue (\<lambda>b. []) (\<lambda>c. []) ''i18n''"

definition sample_args :: args where
  "sample_args = default_args\<lparr>start_year := 2020, end_year := 2021, start_quarter := 3\<rparr>"

section \<open>Facts about the text primitives\<close>

lemma startswith_iff: "startswith t k \<longleftrightarrow> (\<exists>s. t = k @ s)"
  by (induction t k rule: startswith.induct) auto

lemma str_in_iff: "str_in k t \<longleftrightarrow> (\<exists>p s. t = p @ k @ s)"
proof (induction t)
  case Nil
  then show ?case by auto
next
  case (Cons c t)
  show ?case
  proof
    assume "str_in k (c # t)"
    then consider "startswith (c # t) k" | "str_in k t" by auto
    then show "\<exists>p s. c # t = p @ k @ s"
    proof cases
      case 1
      then obtain s where "c # t = k @ s" by (auto simp: startswith_iff)
      then have "c # t = [] @ k @ s" by simp
      then show ?thesis by blast
    next
      case 2
      then obtain p s where "t = p @ k @ s" using Cons.IH by blast
      then have "c # t = (c # p) @ k @ s" by simp
      then show ?thesis by blast
    qed
  next
    assume "\<exists>p s. c # t = p @ k @ s"
    then obtain p s where ps: "c # t = p @ k @ s" by blast
    show "str_in k (c # t)"
    proof (cases p)
      case Nil
      with ps have "startswith (c # t) k" by (auto simp: startswith_iff)
      then show ?thesis by simp
    next
      case (Cons a p')
      with ps have "t = p' @ k @ s" by simp
      then have "str_in k t" using Cons.IH by blast
      then show ?thesis by simp
    qed
  qed
qed

section \<open>Matched search terms\<close>

text \<open>
  C9. For every combined text and every triggering term, \<open>detect_search_terms\<close> returns
  exactly the configured search terms whose lowercase form occurs as a substring of the
  lowercased text, together with the triggering term, which is included whether or not
  it occurs in the text. All configured terms are checked.
\<close>

theorem detect_search_terms_exact:
  "set (detect_search_terms text term) =
     {t \<in> set SEARCH_TERMS. \<exists>p s. lower text = p @ lower t @ s} \<union> {term}"
proof -
  define found where "found = filter (\<lambda>t. str_in (lower t) (lower text)) SEARCH_TERMS"
  have f: "set found = {t \<in> set SEARCH_TERMS. \<exists>p s. lower text = p @ lower t @ s}"
    unfolding found_def by (simp only: set_filter str_in_iff)
  have d: "detect_search_terms text term = (if term \<notin> set found then found @ [term] else found)"
    unfolding found_def detect_search_terms_def Let_def ..
  have "set (detect_search_terms text term) = set found \<union> {term}"
    unfolding d by (cases "term \<in> set found") auto
  then show ?thesis unfolding f .
qed

text \<open>
  C9 at a concrete input: the text \<open>RTL layout\<close> found through the term \<open>l10n\<close>. The
  table term \<open>rtl\<close> is found although it is not the triggering term, and \<open>l10n\<close> is
  reported although it does not occur in the text.
\<close>

theorem detect_search_terms_exact_witness:
  "set (detect_search_terms ''RTL layout'' ''l10n'') =
     {t \<in> set SEARCH_TERMS. \<exists>p s. lower ''RTL layout'' = p @ lower t @ s} \<union> {''l10n''}
   \<and> detect_search_terms ''RTL layout'' ''l10n'' = [''rtl'', ''l10n'']
   \<and> \<not> str_in (lower ''l10n'') (lower ''RTL layout'')"
proof -
  have a: "detect_search_terms ''RTL layout'' ''l10n'' = [''rtl'', ''l10n'']"
    by code_simp
  have b: "\<not> str_in (lower ''l10n'') (lower ''RTL layout'')"
    by code_simp
  from detect_search_terms_exact [of "''RTL layout''" "''l10n''"] a b
  show ?thesis by (intro conjI)
qed

section \<open>The merged bug keyword of the cleaning stage\<close>

text \<open>
  C10. The keyword table of clean\_data.py holds the single keyword
  \<open>not workingnot translated\<close> and neither \<open>not working\<close> nor \<open>not translated\<close>. So for
  every text that contains \<open>not translated\<close> or \<open>not working\<close> and no other keyword of
  the table, \<open>contains_bug_keyword\<close> returns \<open>False\<close>.
\<close>

theorem bug_keywords_merged_literal:
  assumes "str_in ''not translated'' (lower text) \<or> str_in ''not working'' (lower text)"
    and "\<forall>k\<in>set BUG_KEYWORDS.
           k \<noteq> ''not translated'' \<and> k \<noteq> ''not working'' \<longrightarrow> \<not> str_in k (lower text)"
  shows "''not workingnot translated'' \<in> set BUG_KEYWORDS
     \<and> ''not translated'' \<notin> set BUG_KEYWORDS
     \<and> ''not working'' \<notin> set BUG_KEYWORDS
     \<and> contains_bug_keyword text = False"
proof -
  have m: "''not workingnot translated'' \<in> set BUG_KEYWORDS"
    by (simp add: BUG_KEYWORDS_def)
  have a: "''not translated'' \<notin> set BUG_KEYWORDS"
    by (simp add: BUG_KEYWORDS_def)
  have b: "''not working'' \<notin> set BUG_KEYWORDS"
    by (simp add: BUG_KEYWORDS_def)
  have "\<not> str_in k (lower text)" if "k \<in> set BUG_KEYWORDS" for k
  proof -
    from that a have "k \<noteq> ''not translated''" by (rule_tac notI) (simp only:)
    moreover from that b have "k \<noteq> ''not working''" by (rule_tac notI) (simp only:)
    ultimately show ?thesis using assms(2) that by (simp only: simp_thms)
  qed
  then have "\<not> list_ex (\<lambda>k. str_in k (lower text)) BUG_KEYWORDS"
    unfolding list_ex_iff by (rule_tac notI) (erule bexE, simp only:)
  then have c: "contains_bug_keyword text = False"
    unfolding contains_bug_keyword_def Let_def
    by (simp only: if_False if_True simp_thms split: if_split)
  show ?thesis by (intro conjI m a b c)
qed

text \<open>
  C10 at a concrete input: the text \<open>Label NOT translated\<close> contains the phrase
  \<open>not translated\<close> after lowercasing, contains no keyword of the table, and is rejected.
\<close>

theorem bug_keywords_merged_literal_witness:
  "str_in ''not translated'' (lower ''Label NOT translated'')
   \<and> ''not workingnot translated'' \<in> set BUG_KEYWORDS
   \<and> contains_bug_keyword ''Label NOT translated'' = False"
proof -
  have h1: "str_in ''not translated'' (lower ''Label NOT translated'')"
    by code_simp
  have h2: "\<forall>k\<in>set BUG_KEYWORDS.
              k \<noteq> ''not translated'' \<and> k \<noteq> ''not working''
                \<longrightarrow> \<not> str_in k (lower ''Label NOT translated'')"
    by code_simp
  have h3: "''not workingnot translated'' \<in> set BUG_KEYWORDS
      \<and> contains_bug_keyword ''Label NOT translated'' = False"
    using bug_keywords_merged_literal [OF disjI1 [OF h1] h2] by (elim conjE) (intro conjI)
  show ?thesis by (intro conjI h1 conjunct1 [OF h3] conjunct2 [OF h3])
qed

section \<open>The end date of a quarter\<close>

text \<open>
  C5 as stated fails. In the leap year 2024 the end date computed for Q1 is March 31,
  not February 29, and in 2023 it is not February 28 either.
\<close>

theorem q1_end_is_feb_counterexample:
  "is_leap 2024
   \<and> q_end_date 2024 (quarters ! 0) = (2024, 3, 31)
   \<and> q_end_date 2024 (quarters ! 0) \<noteq> (2024, 2, 29)
   \<and> \<not> is_leap 2023
   \<and> q_end_date 2023 (quarters ! 0) \<noteq> (2023, 2, 28)"
  by (simp add: q_end_date_def quarters_def last_day_def is_leap_def)

text \<open>
  C5, amended. For every year the end date computed for Q1 is March 31, leap year or
  not, and the end date of each quarter is the last calendar day of the quarter's final
  month: March 31, June 30, September 30 and December 31.
\<close>

theorem quarter_end_is_month_end:
  "q_end_date year (quarters ! 0) = (year, 3, 31)
   \<and> (\<forall>q\<in>set quarters. q_end_date year q = (year, snd q, days_in_month year (snd q)))
   \<and> map (q_end_date year) quarters =
       [(year, 3, 31), (year, 6, 30), (year, 9, 30), (year, 12, 31)]"
  by (simp add: q_end_date_def quarters_def last_day_def days_in_month_def)

text \<open>C5, amended, in the leap year 2024.\<close>

theorem quarter_end_is_month_end_witness:
  "q_end_date 2024 (quarters ! 0) = (2024, 3, 31)
   \<and> map (q_end_date 2024) quarters = [(2024, 3, 31), (2024, 6, 30), (2024, 9, 30), (2024, 12, 31)]
   \<and> days_in_month 2024 2 = 29"
  using quarter_end_is_month_end [of 2024] by (simp add: days_in_month_def is_leap_def)

section \<open>The default year range\<close>

text \<open>
  C7 evaluated on the code. With no command-line override \<open>--start-year\<close> is 2025 and
  \<open>--end-year\<close> is 2015, the year loop is \<open>range(2015, 2024, -1)\<close>, which is empty: no
  year and no quarter is processed, whatever the date and the server.
\<close>

theorem default_run_processes_no_year:
  "start_year default_args = 2025 \<and> end_year default_args = 2015
   \<and> campaign_years default_args = []
   \<and> schedule default_args today = []
   \<and> main default_args today world extract_image_urls fetch_issue_comments = Some []"
  by (simp add: campaign_years_def default_args_def START_YEAR_def END_YEAR_def range_down_def
      schedule_def main_def)

section \<open>The window loop\<close>

text \<open>
  For an interval of at least one day the loop returns. The windows it visits, in
  visiting order, are described by \<open>window_loop_log\<close>; \<open>window_loop_visit\<close> says that
  the loop with any work per window is the fold of that work over the same windows.
\<close>

lemma window_loop_log:
  fixes N qs :: int
  assumes N: "N \<ge> 1"
  shows "\<exists>ws. window_loop (\<lambda>a b l. l @ [(a, b)]) N qs cur acc = Some (acc @ ws)
       \<and> (ws = [] \<longleftrightarrow> cur < qs)
       \<and> (ws \<noteq> [] \<longrightarrow> snd (hd ws) = cur \<and> fst (last ws) = qs)
       \<and> (\<forall>w\<in>set ws. fst w \<le> snd w \<and> snd w - fst w + 1 \<le> N \<and> snd w \<le> cur \<and> qs \<le> fst w)
       \<and> successively (\<lambda>w v. snd v = fst w - 1) ws
       \<and> sorted_wrt (\<lambda>w v. snd w > snd v) ws
       \<and> concat (map span (rev ws)) = [qs..cur]"
proof (induction "nat (cur - qs + 1)" arbitrary: cur acc rule: less_induct)
  case less
  show ?case
  proof (cases "cur < qs")
    case True
    then have "window_loop (\<lambda>a b l. l @ [(a, b)]) N qs cur acc = Some (acc @ [])"
      by (subst window_loop.simps) simp
    with True show ?thesis by auto
  next
    case False
    define a where "a = max qs (cur - (N - 1))"
    have a1: "qs \<le> a" and a2: "a \<le> cur" and a3: "cur - a + 1 \<le> N"
      using False N by (auto simp: a_def)
    have step: "window_loop (\<lambda>a b l. l @ [(a, b)]) N qs cur acc
        = window_loop (\<lambda>a b l. l @ [(a, b)]) N qs (a - 1) (acc @ [(a, cur)])"
      using False by (subst window_loop.simps) (simp add: a_def Let_def)
    have "nat (a - 1 - qs + 1) < nat (cur - qs + 1)" using a1 a2 by simp
    then obtain ws where
      ws1: "window_loop (\<lambda>a b l. l @ [(a, b)]) N qs (a - 1) (acc @ [(a, cur)]) = Some ((acc @ [(a, cur)]) @ ws)"
      and ws2: "ws = [] \<longleftrightarrow> a - 1 < qs"
      and ws3: "ws \<noteq> [] \<longrightarrow> snd (hd ws) = a - 1 \<and> fst (last ws) = qs"
      and ws4: "\<forall>w\<in>set ws. fst w \<le> snd w \<and> snd w - fst w + 1 \<le> N \<and> snd w \<le> a - 1 \<and> qs \<le> fst w"
      and ws5: "successively (\<lambda>w v. snd v = fst w - 1) ws"
      and ws6: "sorted_wrt (\<lambda>w v. snd w > snd v) ws"
      and ws7: "concat (map span (rev ws)) = [qs..a - 1]"
      using less.hyps[of "a - 1" "acc @ [(a, cur)]"] by blast
    let ?ws = "(a, cur) # ws"
    have c1: "window_loop (\<lambda>a b l. l @ [(a, b)]) N qs cur acc = Some (acc @ ?ws)"
      using step ws1 by simp
    have c2: "?ws = [] \<longleftrightarrow> cur < qs" using False by simp
    have c3: "snd (hd ?ws) = cur \<and> fst (last ?ws) = qs"
      using ws2 ws3 a1 by (cases "ws = []") auto
    have c4: "\<forall>w\<in>set ?ws. fst w \<le> snd w \<and> snd w - fst w + 1 \<le> N \<and> snd w \<le> cur \<and> qs \<le> fst w"
      using ws4 a1 a2 a3 by auto
    have c5: "successively (\<lambda>w v. snd v = fst w - 1) ?ws"
      using ws5 ws3 by (cases ws) auto
    have c6: "sorted_wrt (\<lambda>w v. snd w > snd v) ?ws"
      using ws6 ws4 a2 by auto
    have "[qs..cur] = [qs..a - 1] @ [a..cur]"
      using a1 a2 by (simp add: upto_split1)
    then have c7: "concat (map span (rev ?ws)) = [qs..cur]"
      using ws7 by (simp add: span_def)
    from c1 c2 c3 c4 c5 c6 c7 show ?thesis by blast
  qed
qed

lemma window_loop_visit:
  fixes N qs :: int
  assumes N: "N \<ge> 1"
  shows "window_loop (\<lambda>a b l. l @ [(a, b)]) N qs cur acc = Some (acc @ ws)
    \<Longrightarrow> window_loop visit N qs cur s = Some (fold (\<lambda>w. visit (fst w) (snd w)) ws s)"
proof (induction "nat (cur - qs + 1)" arbitrary: cur acc ws s rule: less_induct)
  case less
  show ?case
  proof (cases "cur < qs")
    case True
    then have "window_loop (\<lambda>a b l. l @ [(a, b)]) N qs cur acc = Some acc"
      by (subst window_loop.simps) simp
    with less.prems have "ws = []" by simp
    moreover from True have "window_loop visit N qs cur s = Some s"
      by (subst window_loop.simps) simp
    ultimately show ?thesis by simp
  next
    case False
    define a where "a = max qs (cur - (N - 1))"
    have a1: "qs \<le> a" and a2: "a \<le> cur"
      using False N by (auto simp: a_def)
    have step: "window_loop (\<lambda>a b l. l @ [(a, b)]) N qs cur acc
        = window_loop (\<lambda>a b l. l @ [(a, b)]) N qs (a - 1) (acc @ [(a, cur)])"
      using False by (subst window_loop.simps) (simp add: a_def Let_def)
    have vstep: "window_loop visit N qs cur s = window_loop visit N qs (a - 1) (visit a cur s)"
      using False by (subst window_loop.simps) (simp add: a_def Let_def)
    obtain ws' where
      ws': "window_loop (\<lambda>a b l. l @ [(a, b)]) N qs (a - 1) (acc @ [(a, cur)]) = Some ((acc @ [(a, cur)]) @ ws')"
      using window_loop_log [OF N, of qs "a - 1" "acc @ [(a, cur)]"] by blast
    with step less.prems have ws: "ws = (a, cur) # ws'" by simp
    have "nat (a - 1 - qs + 1) < nat (cur - qs + 1)" using a1 a2 by simp
    from less.hyps [OF this ws']
    have "window_loop visit N qs (a - 1) (visit a cur s)
        = Some (fold (\<lambda>w. visit (fst w) (snd w)) ws' (visit a cur s))"
      by blast
    then show ?thesis using vstep ws by simp
  qed
qed




section \<open>Deduplication within a quarter\<close>

lemma find_snoc:
  "find P (xs @ [x]) = (case find P xs of None \<Rightarrow> (if P x then Some x else None) | Some y \<Rightarrow> Some y)"
  by (induction xs) auto

lemma add_issue_inv:
  assumes "dedup_inv obs st"
  shows "dedup_inv (obs @ [x]) (add_issue x st)"
proof (cases "url x \<in> fst st")
  case True
  then have "add_issue x st = st" by (cases st) (simp add: add_issue_def)
  moreover have "url ` set (obs @ [x]) = url ` set obs" using True assms by auto
  moreover have "\<forall>i\<in>set (snd st). find (\<lambda>j. url j = url i) (obs @ [x]) = Some i"
    using assms by (simp add: find_snoc)
  ultimately show ?thesis using assms by simp
next
  case False
  then have a: "add_issue x st = (insert (url x) (fst st), snd st @ [x])"
    by (cases st) (simp add: add_issue_def)
  have nx: "url x \<notin> url ` set obs" using False assms by simp
  then have fx: "find (\<lambda>j. url j = url x) obs = None"
    unfolding find_None_iff by (metis imageI)
  have "\<forall>i\<in>set (snd st @ [x]). find (\<lambda>j. url j = url i) (obs @ [x]) = Some i"
    using assms fx by (auto simp: find_snoc)
  moreover have "distinct (map url (snd st @ [x]))"
    using assms nx by auto
  moreover have "url ` set (snd st @ [x]) = url ` set (obs @ [x])" using assms by auto
  moreover have "insert (url x) (fst st) = url ` set (obs @ [x])" using assms by auto
  ultimately show ?thesis unfolding a by simp
qed

lemma fold_add_issue_inv:
  "dedup_inv obs st \<Longrightarrow> dedup_inv (obs @ xs) (fold add_issue xs st)"
proof (induction xs arbitrary: obs st)
  case Nil
  then show ?case by simp
next
  case (Cons x xs)
  from Cons.IH [OF add_issue_inv [OF Cons.prems, of x]]
  show ?case by simp
qed

lemma fold_terms_inv:
  "dedup_inv obs st \<Longrightarrow>
   dedup_inv (obs @ concat (map (\<lambda>term. fetch term a b) ts))
     (fold (\<lambda>term st'. fold add_issue (fetch term a b) st') ts st)"
proof (induction ts arbitrary: obs st)
  case Nil
  then show ?case by simp
next
  case (Cons t ts)
  from Cons.IH [OF fold_add_issue_inv [OF Cons.prems, of "fetch t a b"]]
  show ?case by simp
qed

lemma fold_windows_inv:
  "dedup_inv obs st \<Longrightarrow>
   dedup_inv (obs @ observed fetch ws) (fold (\<lambda>w. visit_window fetch (fst w) (snd w)) ws st)"
proof (induction ws arbitrary: obs st)
  case Nil
  then show ?case by (simp add: observed_def)
next
  case (Cons w ws)
  have "dedup_inv (obs @ concat (map (\<lambda>term. fetch term (fst w) (snd w)) SEARCH_TERMS))
          (visit_window fetch (fst w) (snd w) st)"
    unfolding visit_window_def using Cons.prems by (rule fold_terms_inv)
  from Cons.IH [OF this] show ?case by (simp add: observed_def)
qed

text \<open>
  With an interval of at least one day the crawl of a quarter returns, and its final
  state satisfies the dedup invariant for everything the windows and terms returned.
\<close>

lemma crawl_quarter_inv:
  assumes "N \<ge> 1"
  shows "\<exists>ws st. windows N qs qe = Some ws
     \<and> sorted_wrt (\<lambda>w v. snd w > snd v) ws
     \<and> window_loop (visit_window fetch) N qs qe ({}, []) = Some st
     \<and> dedup_inv (observed fetch ws) st"
proof -
  obtain ws where ws: "window_loop (\<lambda>a b l. l @ [(a, b)]) N qs qe [] = Some ([] @ ws)"
    and sorted: "sorted_wrt (\<lambda>w v. snd w > snd v) ws"
    using window_loop_log [OF assms, of qs qe "[]"] by blast
  let ?st = "fold (\<lambda>w. visit_window fetch (fst w) (snd w)) ws ({}, [])"
  have "window_loop (visit_window fetch) N qs qe ({}, []) = Some ?st"
    using window_loop_visit [OF assms ws] .
  moreover have "dedup_inv ([] @ observed fetch ws) ?st"
    by (rule fold_windows_inv) simp
  moreover have "windows N qs qe = Some ws" using ws by (simp add: windows_def)
  ultimately show ?thesis using sorted by auto
qed

text \<open>
  C3. For every server behaviour \<open>fetch\<close> (the items returned for each term and
  window) the crawl of a quarter with \<open>N \<ge> 1\<close> returns a collection in which no URL
  occurs twice, which has exactly the URLs that were observed, and in which the issue
  kept for a URL is the first issue with that URL in visiting order (windows as the
  loop visits them, which is newest end date first, terms in table order): the whole
  record of the first copy, so the matched terms of later copies are not merged in.
\<close>

theorem first_writer_wins:
  assumes "N \<ge> 1"
  shows "\<exists>ws quarter_issues. windows N qs qe = Some ws
     \<and> sorted_wrt (\<lambda>w v. snd w > snd v) ws
     \<and> crawl_quarter fetch N qs qe = Some quarter_issues
     \<and> distinct (map url quarter_issues)
     \<and> url ` set quarter_issues = url ` set (observed fetch ws)
     \<and> (\<forall>i\<in>set quarter_issues. find (\<lambda>j. url j = url i) (observed fetch ws) = Some i)"
proof -
  obtain ws st where "windows N qs qe = Some ws"
    and "sorted_wrt (\<lambda>w v. snd w > snd v) ws"
    and "window_loop (visit_window fetch) N qs qe ({}, []) = Some st"
    and "dedup_inv (observed fetch ws) st"
    using crawl_quarter_inv [OF assms] by blast
  moreover from this have "crawl_quarter fetch N qs qe = Some (snd st)"
    by (simp add: crawl_quarter_def)
  ultimately show ?thesis by blast
qed

text \<open>
  C3 at a concrete input: \<open>u1\<close> is found under \<open>i18n\<close> and again under \<open>l10n\<close> in
  the newest window, \<open>u2\<close> under \<open>l10n\<close> in the newest window and under \<open>i18n\<close>
  in the oldest one. The copies kept are the \<open>i18n\<close> copy of \<open>u1\<close> and the
  \<open>l10n\<close> copy of \<open>u2\<close>.
\<close>

theorem first_writer_wins_witness:
  "crawl_quarter sample_fetch 30 (q_start 2021 (1, 3)) (q_end 2021 (1, 3)) =
     Some [sample_issue 1 ''u1'' [''a.png''] [''i18n''], sample_issue 2 ''u2'' [] [''l10n'']]
   \<and> observed sample_fetch (the (windows 30 (q_start 2021 (1, 3)) (q_end 2021 (1, 3)))) =
       [sample_issue 1 ''u1'' [''a.png''] [''i18n''], sample_issue 1 ''u1'' [''a.png''] [''l10n''],
        sample_issue 2 ''u2'' [] [''l10n''], sample_issue 2 ''u2'' [] [''i18n'']]
   \<and> distinct (map url [sample_issue 1 ''u1'' [''a.png''] [''i18n''], sample_issue 2 ''u2'' [] [''l10n'']])"
proof -
  have c: "crawl_quarter sample_fetch 30 (q_start 2021 (1, 3)) (q_end 2021 (1, 3)) =
     Some [sample_issue 1 ''u1'' [''a.png''] [''i18n''], sample_issue 2 ''u2'' [] [''l10n'']]"
    by code_simp
  have o: "observed sample_fetch (the (windows 30 (q_start 2021 (1, 3)) (q_end 2021 (1, 3)))) =
       [sample_issue 1 ''u1'' [''a.png''] [''i18n''], sample_issue 1 ''u1'' [''a.png''] [''l10n''],
        sample_issue 2 ''u2'' [] [''l10n''], sample_issue 2 ''u2'' [] [''i18n'']]"
    by code_simp
  obtain qi where "crawl_quarter sample_fetch 30 (q_start 2021 (1, 3)) (q_end 2021 (1, 3)) = Some qi"
    and "distinct (map url qi)"
    using first_writer_wins [of 30 "q_start 2021 (1, 3)" "q_end 2021 (1, 3)" sample_fetch] by auto
  with c have "distinct (map url [sample_issue 1 ''u1'' [''a.png''] [''i18n''], sample_issue 2 ''u2'' [] [''l10n'']])"
    by simp
  with c o show ?thesis by (intro conjI)
qed

section \<open>The image filter and the reported total\<close>

text \<open>
  C8. For every quarter crawled with \<open>N \<ge> 1\<close>, every issue handed to the output has
  at least one image URL, the kept issues are the collected issues with an image, and
  \<open>total_collected\<close> is the number of collected issues after deduplication, with or
  without images: the number of distinct URLs observed, never less than the number of
  kept issues.
\<close>

theorem kept_issues_have_images:
  assumes "N \<ge> 1"
  shows "\<exists>ws quarter_issues total_collected kept.
       windows N qs qe = Some ws
     \<and> crawl_quarter fetch N qs qe = Some quarter_issues
     \<and> process_quarter fetch N qs qe = Some (total_collected, kept)
     \<and> (\<forall>i\<in>set kept. image_urls i \<noteq> [])
     \<and> kept = filter (\<lambda>i. image_urls i \<noteq> []) quarter_issues
     \<and> total_collected = length quarter_issues
     \<and> total_collected = card (url ` set (observed fetch ws))
     \<and> length kept \<le> total_collected"
proof -
  obtain ws st where ws: "windows N qs qe = Some ws"
    and st: "window_loop (visit_window fetch) N qs qe ({}, []) = Some st"
    and inv: "dedup_inv (observed fetch ws) st"
    using crawl_quarter_inv [OF assms] by blast
  let ?kept = "filter (\<lambda>i. image_urls i \<noteq> []) (snd st)"
  have c: "crawl_quarter fetch N qs qe = Some (snd st)"
    using st by (simp add: crawl_quarter_def)
  then have p: "process_quarter fetch N qs qe = Some (length (snd st), ?kept)"
    by (simp add: process_quarter_def)
  have "card (url ` set (snd st)) = length (snd st)"
    using inv distinct_card [of "map url (snd st)"] by simp
  then have k: "length (snd st) = card (url ` set (observed fetch ws))"
    using inv by simp
  have "\<forall>i\<in>set ?kept. image_urls i \<noteq> []" by simp
  moreover have "length ?kept \<le> length (snd st)" by simp
  ultimately show ?thesis using ws c p k by blast
qed

text \<open>C8 at a concrete input: two issues are collected, the one without an image is
  not kept, and the total stays 2.\<close>

theorem kept_issues_have_images_witness:
  "process_quarter sample_fetch 30 (q_start 2021 (1, 3)) (q_end 2021 (1, 3)) =
     Some (2, [sample_issue 1 ''u1'' [''a.png''] [''i18n'']])
   \<and> image_urls (sample_issue 1 ''u1'' [''a.png''] [''i18n'']) \<noteq> []
   \<and> image_urls (sample_issue 2 ''u2'' [] [''l10n'']) = []"
proof -
  have p: "process_quarter sample_fetch 30 (q_start 2021 (1, 3)) (q_end 2021 (1, 3)) =
     Some (2, [sample_issue 1 ''u1'' [''a.png''] [''i18n'']])"
    by code_simp
  obtain total_collected kept where
    "process_quarter sample_fetch 30 (q_start 2021 (1, 3)) (q_end 2021 (1, 3)) = Some (total_collected, kept)"
    and "\<forall>i\<in>set kept. image_urls i \<noteq> []"
    using kept_issues_have_images [of 30 "q_start 2021 (1, 3)" "q_end 2021 (1, 3)" sample_fetch] by auto
  with p have a: "image_urls (sample_issue 1 ''u1'' [''a.png''] [''i18n'']) \<noteq> []" by simp
  have b: "image_urls (sample_issue 2 ''u2'' [] [''l10n'']) = []" by (simp add: sample_issue_def)
  from p a b show ?thesis by (intro conjI)
qed

section \<open>The pager\<close>

text \<open>
  Whatever the server answers, the pages requested by a run of the page loop are an
  initial part of the pages it was given, in their order, and every request is counted
  once; the events of the run extend the events before it, starting with the request of
  the first page.
\<close>

lemma requested_pages_append:
  "requested_pages (xs @ ys) = requested_pages xs @ requested_pages ys"
  by (induction xs rule: requested_pages.induct) simp_all

lemma pager_requested:
  "\<exists>n\<le>length pages.
     requested_pages (events (pager net enrich pages st)) = requested_pages (events st) @ take n pages
     \<and> requests_made (pager net enrich pages st) = requests_made st + n"
proof (induction pages arbitrary: st)
  case Nil
  then show ?case by simp
next
  case (Cons page pages)
  let ?st1 = "st\<lparr>requests_made := Suc (requests_made st), events := events st @ [Fetching page]\<rparr>"
  have stop: "\<exists>n\<le>length (page # pages).
     requested_pages (events ?st1) = requested_pages (events st) @ take n (page # pages)
     \<and> requests_made ?st1 = requests_made st + n"
    by (rule exI [of _ 1]) (simp add: requested_pages_append)
  have go: "\<exists>n\<le>length (page # pages).
     requested_pages (events (pager net enrich pages st')) = requested_pages (events st) @ take n (page # pages)
     \<and> requests_made (pager net enrich pages st') = requests_made st + n"
    if "requested_pages (events st') = requested_pages (events st) @ [page]"
      and "requests_made st' = Suc (requests_made st)" for st'
  proof -
    from Cons.IH [of st'] obtain n where "n \<le> length pages"
      and "requested_pages (events (pager net enrich pages st')) = requested_pages (events st') @ take n pages"
      and "requests_made (pager net enrich pages st') = requests_made st' + n"
      by blast
    with that show ?thesis by (intro exI [of _ "Suc n"]) simp
  qed
  show ?case
  proof (cases "net (requests_made st) page")
    case ConnectionError
    then have "pager net enrich (page # pages) st = pager net enrich pages ?st1" by (simp add: Let_def)
    moreover have "\<exists>n\<le>length (page # pages).
     requested_pages (events (pager net enrich pages ?st1)) = requested_pages (events st) @ take n (page # pages)
     \<and> requests_made (pager net enrich pages ?st1) = requests_made st + n"
      by (rule go) (simp_all add: requested_pages_append)
    ultimately show ?thesis by simp
  next
    case (Http status_code items)
    consider "status_code = 403" | "status_code \<noteq> 403" "status_code \<noteq> 200 \<or> items = []"
      | "status_code = 200" "items \<noteq> []" by auto
    then show ?thesis
    proof cases
      case 1
      let ?st2 = "?st1\<lparr>events := events ?st1 @ [Sleep 60]\<rparr>"
      from 1 Http have "pager net enrich (page # pages) st = pager net enrich pages ?st2" by (simp add: Let_def)
      moreover have "\<exists>n\<le>length (page # pages).
         requested_pages (events (pager net enrich pages ?st2)) = requested_pages (events st) @ take n (page # pages)
         \<and> requests_made (pager net enrich pages ?st2) = requests_made st + n"
        by (rule go) (simp_all add: requested_pages_append)
      ultimately show ?thesis by simp
    next
      case 2
      with Http have "pager net enrich (page # pages) st = ?st1" by (auto simp: Let_def)
      with stop show ?thesis by simp
    next
      case 3
      let ?st2 = "?st1\<lparr>issues := issues ?st1 @ map enrich items, events := events ?st1 @ [Sleep 1]\<rparr>"
      from 3 Http have "pager net enrich (page # pages) st = pager net enrich pages ?st2" by (simp add: Let_def)
      moreover have "\<exists>n\<le>length (page # pages).
         requested_pages (events (pager net enrich pages ?st2)) = requested_pages (events st) @ take n (page # pages)
         \<and> requests_made (pager net enrich pages ?st2) = requests_made st + n"
        by (rule go) (simp_all add: requested_pages_append)
      ultimately show ?thesis by simp
    qed
  qed
qed

lemma pager_events_start:
  "\<exists>es. events (pager net enrich pages st) = events st @ es"
proof (induction pages arbitrary: st)
  case Nil
  then show ?case by simp
next
  case (Cons page pages)
  let ?st1 = "st\<lparr>requests_made := Suc (requests_made st), events := events st @ [Fetching page]\<rparr>"
  have go: "\<exists>es. events (pager net enrich pages st') = events st @ es"
    if "\<exists>es'. events st' = events st @ es'" for st'
  proof -
    from that obtain es' where "events st' = events st @ es'" by blast
    moreover from Cons.IH [of st'] obtain es where "events (pager net enrich pages st') = events st' @ es" by blast
    ultimately show ?thesis by simp
  qed
  show ?case
  proof (cases "net (requests_made st) page")
    case ConnectionError
    then show ?thesis using go [of ?st1] by (simp add: Let_def)
  next
    case (Http status_code items)
    then show ?thesis
      using go [of "?st1\<lparr>events := events ?st1 @ [Sleep 60]\<rparr>"]
        go [of "?st1\<lparr>issues := issues ?st1 @ map enrich items, events := events ?st1 @ [Sleep 1]\<rparr>"]
      by (auto simp: Let_def)
  qed
qed

lemma pager_events_first:
  "\<exists>es. events (pager net enrich (page # pages) st) = events st @ Fetching page # es"
proof -
  let ?st1 = "st\<lparr>requests_made := Suc (requests_made st), events := events st @ [Fetching page]\<rparr>"
  have go: "\<exists>es. events (pager net enrich pages st') = events st @ Fetching page # es"
    if "\<exists>es'. events st' = events st @ Fetching page # es'" for st'
  proof -
    from that obtain es' where "events st' = events st @ Fetching page # es'" by blast
    moreover from pager_events_start [of net enrich pages st']
    obtain es where "events (pager net enrich pages st') = events st' @ es" by blast
    ultimately show ?thesis by simp
  qed
  show ?thesis
  proof (cases "net (requests_made st) page")
    case ConnectionError
    then show ?thesis using go [of ?st1] by (simp add: Let_def)
  next
    case (Http status_code items)
    then show ?thesis
      using go [of "?st1\<lparr>events := events ?st1 @ [Sleep 60]\<rparr>"]
        go [of "?st1\<lparr>issues := issues ?st1 @ map enrich items, events := events ?st1 @ [Sleep 1]\<rparr>"]
      by (auto simp: Let_def)
  qed
qed

lemma fetch_requested:
  "\<exists>n\<le>nat M.
     requested_pages (events (fetch_issues_by_date net enrich M)) = take n [1..M]
     \<and> requests_made (fetch_issues_by_date net enrich M) = n"
  using pager_requested [of "[1..M]" net enrich "\<lparr>requests_made = 0, events = [], issues = []\<rparr>"]
  by (simp add: fetch_issues_by_date_def)

text \<open>
  C1 as stated fails. For the responses Throttled, Throttled, Success with one item:
  with \<open>MAX_PAGES = 1\<close> the pager makes one request, waits once and returns nothing;
  with \<open>MAX_PAGES = 3\<close> it requests the pages 1, 2 and 3.
\<close>

theorem throttled_page_counts_and_pager_advances_counterexample:
  "events (fetch_issues_by_date (scripted [Http 403 [], Http 403 [], Http 200 [sample_item]]) sample_enrich 1)
     = [Fetching 1, Sleep 60]
   \<and> cooldowns (events (fetch_issues_by_date (scripted [Http 403 [], Http 403 [], Http 200 [sample_item]]) sample_enrich 1)) = 1
   \<and> issues (fetch_issues_by_date (scripted [Http 403 [], Http 403 [], Http 200 [sample_item]]) sample_enrich 1) = []
   \<and> requested_pages (events (fetch_issues_by_date (scripted [Http 403 [], Http 403 [], Http 200 [sample_item]]) sample_enrich 3))
     = [1, 2, 3]"
  by code_simp

text \<open>
  C1, amended. When the request for a page is answered with status 403, the pager
  waits 60 seconds and goes on with the remaining pages of the loop: the next request,
  if a page remains, is for the next page, and the throttled page is not requested
  again. The throttled request uses up one iteration: over a whole call the pages
  requested are \<open>1, 2, ...\<close> up to some \<open>n\<close>, each once, with \<open>n\<close> at most
  \<open>MAX_PAGES\<close> (written \<open>M\<close> below), and \<open>n\<close> requests are made.
\<close>

theorem throttled_page_is_skipped:
  assumes "net (requests_made st) page = Http 403 items"
  shows "pager net enrich (page # pages) st =
           pager net enrich pages
             (st\<lparr>requests_made := Suc (requests_made st),
                 events := events st @ [Fetching page, Sleep 60]\<rparr>)
     \<and> (\<exists>es. events (pager net enrich (page # next_page # pages) st) =
              events st @ [Fetching page, Sleep 60, Fetching next_page] @ es)
     \<and> (\<exists>n\<le>nat M.
           requested_pages (events (fetch_issues_by_date net enrich M)) = take n [1..M]
           \<and> requests_made (fetch_issues_by_date net enrich M) = n)"
proof -
  let ?st2 = "st\<lparr>requests_made := Suc (requests_made st),
                 events := events st @ [Fetching page, Sleep 60]\<rparr>"
  have step: "pager net enrich (page # pages) st = pager net enrich pages ?st2" for pages
    using assms by (simp add: Let_def)
  obtain es where "events (pager net enrich (next_page # pages) ?st2) = events ?st2 @ Fetching next_page # es"
    using pager_events_first [of net enrich next_page pages ?st2] by blast
  then have "events (pager net enrich (page # next_page # pages) st) =
      events st @ [Fetching page, Sleep 60, Fetching next_page] @ es"
    unfolding step by simp
  then have "\<exists>es. events (pager net enrich (page # next_page # pages) st) =
      events st @ [Fetching page, Sleep 60, Fetching next_page] @ es" ..
  with step [of pages] fetch_requested [of M net enrich] show ?thesis by (intro conjI)
qed

text \<open>
  C1, amended, for the responses Throttled, Throttled, Success with one item and three
  pages: after the first throttled request the call is the page loop over pages 2 and 3,
  two cooldowns are taken, and the item returned is the one of the third response.
\<close>

theorem throttled_page_is_skipped_witness:
  "scripted [Http 403 [], Http 403 [], Http 200 [sample_item]] 0 1 = Http 403 []
   \<and> fetch_issues_by_date (scripted [Http 403 [], Http 403 [], Http 200 [sample_item]]) sample_enrich 3 =
       pager (scripted [Http 403 [], Http 403 [], Http 200 [sample_item]]) sample_enrich [2, 3]
         \<lparr>requests_made = 1, events = [Fetching 1, Sleep 60], issues = []\<rparr>
   \<and> events (fetch_issues_by_date (scripted [Http 403 [], Http 403 [], Http 200 [sample_item]]) sample_enrich 3) =
       [Fetching 1, Sleep 60, Fetching 2, Sleep 60, Fetching 3, Sleep 1]
   \<and> issues (fetch_issues_by_date (scripted [Http 403 [], Http 403 [], Http 200 [sample_item]]) sample_enrich 3) =
       [sample_enrich sample_item]"
proof -
  let ?net = "scripted [Http 403 [], Http 403 [], Http 200 [sample_item]]"
  let ?st = "\<lparr>requests_made = 0, events = [], issues = []\<rparr>"
  have h: "?net (requests_made ?st) 1 = Http 403 []" by (simp add: scripted_def)
  have u: "[1..3] = [1, 2, 3::int]" by code_simp
  from throttled_page_is_skipped [where st = ?st and net = ?net and page = 1 and enrich = sample_enrich and pages = "[2, 3]", OF h]
  have "pager ?net sample_enrich [1, 2, 3] ?st =
        pager ?net sample_enrich [2, 3] \<lparr>requests_made = 1, events = [Fetching 1, Sleep 60], issues = []\<rparr>"
    by simp
  then have a: "fetch_issues_by_date ?net sample_enrich 3 =
       pager ?net sample_enrich [2, 3] \<lparr>requests_made = 1, events = [Fetching 1, Sleep 60], issues = []\<rparr>"
    by (simp add: fetch_issues_by_date_def u)
  have b: "events (fetch_issues_by_date ?net sample_enrich 3) =
       [Fetching 1, Sleep 60, Fetching 2, Sleep 60, Fetching 3, Sleep 1]"
    by code_simp
  have c: "issues (fetch_issues_by_date ?net sample_enrich 3) = [sample_enrich sample_item]"
    by code_simp
  from h a b c show ?thesis by simp
qed

text \<open>
  C4 as stated fails. When the request for page 1 fails on the transport level and
  \<open>MAX_PAGES = 2\<close>, page 2 is requested and its item is returned.
\<close>

theorem transport_failure_stops_paging_counterexample:
  "scripted [ConnectionError, Http 200 [sample_item]] 0 1 = ConnectionError
   \<and> requested_pages (events (fetch_issues_by_date (scripted [ConnectionError, Http 200 [sample_item]]) sample_enrich 2))
       = [1, 2]
   \<and> issues (fetch_issues_by_date (scripted [ConnectionError, Http 200 [sample_item]]) sample_enrich 2)
       = [sample_enrich sample_item]
   \<and> issues (fetch_issues_by_date (scripted [ConnectionError, Http 200 [sample_item]]) sample_enrich 2) \<noteq> []"
  by code_simp

text \<open>
  C4, amended. When the request for a page fails on the transport level, the pager
  goes on with the remaining pages of the loop without waiting: the next request, if a
  page remains, is for the next page. The failed page is not requested again: no page
  number is requested twice in a call.
\<close>

theorem transport_failure_skips_page:
  assumes "net (requests_made st) page = ConnectionError"
  shows "pager net enrich (page # pages) st =
           pager net enrich pages
             (st\<lparr>requests_made := Suc (requests_made st), events := events st @ [Fetching page]\<rparr>)
     \<and> (\<exists>es. events (pager net enrich (page # next_page # pages) st) =
              events st @ [Fetching page, Fetching next_page] @ es)
     \<and> distinct (requested_pages (events (fetch_issues_by_date net enrich M)))"
proof -
  let ?st1 = "st\<lparr>requests_made := Suc (requests_made st), events := events st @ [Fetching page]\<rparr>"
  have step: "pager net enrich (page # pages) st = pager net enrich pages ?st1" for pages
    using assms by (simp add: Let_def)
  obtain es where "events (pager net enrich (next_page # pages) ?st1) = events ?st1 @ Fetching next_page # es"
    using pager_events_first [of net enrich next_page pages ?st1] by blast
  then have "events (pager net enrich (page # next_page # pages) st) =
      events st @ [Fetching page, Fetching next_page] @ es"
    unfolding step by simp
  then have e: "\<exists>es. events (pager net enrich (page # next_page # pages) st) =
      events st @ [Fetching page, Fetching next_page] @ es" ..
  obtain n where "requested_pages (events (fetch_issues_by_date net enrich M)) = take n [1..M]"
    using fetch_requested [of M net enrich] by blast
  then have d: "distinct (requested_pages (events (fetch_issues_by_date net enrich M)))"
    by simp
  from step [of pages] e d show ?thesis by (intro conjI)
qed

text \<open>C4, amended, for the responses transport failure, Success with one item and
  two pages.\<close>

theorem transport_failure_skips_page_witness:
  "scripted [ConnectionError, Http 200 [sample_item]] 0 1 = ConnectionError
   \<and> fetch_issues_by_date (scripted [ConnectionError, Http 200 [sample_item]]) sample_enrich 2 =
       pager (scripted [ConnectionError, Http 200 [sample_item]]) sample_enrich [2]
         \<lparr>requests_made = 1, events = [Fetching 1], issues = []\<rparr>
   \<and> events (fetch_issues_by_date (scripted [ConnectionError, Http 200 [sample_item]]) sample_enrich 2) =
       [Fetching 1, Fetching 2, Sleep 1]"
proof -
  let ?net = "scripted [ConnectionError, Http 200 [sample_item]]"
  let ?st = "\<lparr>requests_made = 0, events = [], issues = []\<rparr>"
  have h: "?net (requests_made ?st) 1 = ConnectionError" by (simp add: scripted_def)
  have u: "[1..2] = [1, 2::int]" by code_simp
  from transport_failure_skips_page [where st = ?st and net = ?net and page = 1 and enrich = sample_enrich and pages = "[2]", OF h]
  have "pager ?net sample_enrich [1, 2] ?st =
        pager ?net sample_enrich [2] \<lparr>requests_made = 1, events = [Fetching 1], issues = []\<rparr>"
    by simp
  then have a: "fetch_issues_by_date ?net sample_enrich 2 =
       pager ?net sample_enrich [2] \<lparr>requests_made = 1, events = [Fetching 1], issues = []\<rparr>"
    by (simp add: fetch_issues_by_date_def u)
  have b: "events (fetch_issues_by_date ?net sample_enrich 2) = [Fetching 1, Fetching 2, Sleep 1]"
    by code_simp
  from h a b show ?thesis by simp
qed

section \<open>The start quarter\<close>

text \<open>
  The quarter loop of a year yields the quarters from the start quarter on, up to the
  first one that starts after today; every pair it yields carries its year.
\<close>

lemma year_quarters_table:
  "year_quarters today sq y (enumerate_from 1 quarters) =
     map (Pair y) (takeWhile (\<lambda>q. q_start y (quarters ! nat (q - 1)) \<le> today)
                     (filter (\<lambda>q. sq \<le> q) [1, 2, 3, 4]))"
  by (simp add: quarters_def)

lemma filter_concat_one:
  assumes "distinct ys" and "y \<in> set ys"
    and "\<And>y' p. y' \<in> set ys \<Longrightarrow> p \<in> set (f y') \<Longrightarrow> fst p = y'"
  shows "filter (\<lambda>p. fst p = y) (concat (map f ys)) = f y"
  using assms
proof (induction ys)
  case Nil
  then show ?case by simp
next
  case (Cons a ys)
  have fa: "\<And>p. p \<in> set (f a) \<Longrightarrow> fst p = a" using Cons.prems(3) by simp
  show ?case
  proof (cases "a = y")
    case True
    then have "y \<notin> set ys" using Cons.prems(1) by simp
    then have "\<And>p. p \<in> set (concat (map f ys)) \<Longrightarrow> fst p \<noteq> y"
      using Cons.prems(3) by auto
    then have "filter (\<lambda>p. fst p = y) (concat (map f ys)) = []"
      by (simp add: filter_empty_conv)
    moreover have "filter (\<lambda>p. fst p = y) (f a) = f a"
      using fa True by (simp add: filter_id_conv)
    ultimately show ?thesis using True by simp
  next
    case False
    then have "filter (\<lambda>p. fst p = y) (f a) = []"
      using fa by (auto simp: filter_empty_conv)
    moreover have "filter (\<lambda>p. fst p = y) (concat (map f ys)) = f y"
      using Cons.IH Cons.prems False by auto
    ultimately show ?thesis by simp
  qed
qed

lemma year_quarters_fst: "p \<in> set (year_quarters today sq y qs) \<Longrightarrow> fst p = y"
  by (induction qs) (auto split: if_splits)

lemma takeWhile_filter_holds: "q \<in> set (takeWhile P (filter Q xs)) \<Longrightarrow> Q q"
  by (auto dest: set_takeWhileD)

lemma map_snd_Pair: "map snd (map (Pair y) xs) = xs"
  by (induction xs) simp_all

text \<open>
  C6 as stated fails. With \<open>--start-year 2020 --end-year 2021 --start-quarter 3\<close> run
  on 2022-01-01, the second processed year 2020 gets the quarters 3 and 4 only, not all
  four.
\<close>

theorem start_quarter_first_year_only_counterexample:
  "campaign_years sample_args = [2021, 2020]
   \<and> start_quarter sample_args = 3
   \<and> schedule sample_args (datetime 2022 1 1) = [(2021, 3), (2021, 4), (2020, 3), (2020, 4)]
   \<and> quarters_done sample_args (datetime 2022 1 1) 2020 = [3, 4]
   \<and> quarters_done sample_args (datetime 2022 1 1) 2020 \<noteq> [1, 2, 3, 4]"
  by code_simp

text \<open>
  C6, amended. The start-quarter setting is applied in every processed year alike: in
  each year of the campaign the quarters processed are those with index at least the
  start quarter, in ascending order, up to the first one that starts after today.
\<close>

theorem start_quarter_applies_every_year:
  assumes "y \<in> set (campaign_years a)"
  shows "quarters_done a today y =
           takeWhile (\<lambda>q. q_start y (quarters ! nat (q - 1)) \<le> today)
             (filter (\<lambda>q. start_quarter a \<le> q) [1, 2, 3, 4])
     \<and> (\<forall>q\<in>set (quarters_done a today y). start_quarter a \<le> q)"
proof -
  define f where "f = (\<lambda>year. year_quarters today (start_quarter a) year (enumerate_from 1 quarters))"
  define qs where "qs = takeWhile (\<lambda>q. q_start y (quarters ! nat (q - 1)) \<le> today)
             (filter (\<lambda>q. start_quarter a \<le> q) [1, 2, 3, 4])"
  have d: "distinct (campaign_years a)" by (simp add: campaign_years_def range_down_def)
  have k: "fst p = y'" if "p \<in> set (f y')" for y' p
    using that unfolding f_def by (rule year_quarters_fst)
  have "filter (\<lambda>p. fst p = y) (concat (map f (campaign_years a))) = f y"
    using d assms k by (rule filter_concat_one)
  moreover have "schedule a today = concat (map f (campaign_years a))"
    unfolding schedule_def f_def ..
  ultimately have "quarters_done a today y = map snd (f y)"
    unfolding quarters_done_def by (simp only:)
  also have "f y = map (Pair y) qs"
    unfolding f_def qs_def by (rule year_quarters_table)
  also have "map snd (map (Pair y) qs) = qs" by (rule map_snd_Pair)
  finally have e: "quarters_done a today y = qs" .
  have "\<forall>q\<in>set qs. start_quarter a \<le> q"
    unfolding qs_def by (rule ballI) (erule takeWhile_filter_holds)
  with e show ?thesis unfolding qs_def by (simp only: simp_thms)
qed

text \<open>C6, amended, for the command line above: both 2021 and 2020 get the quarters
  3 and 4.\<close>

theorem start_quarter_applies_every_year_witness:
  "2020 \<in> set (campaign_years sample_args)
   \<and> quarters_done sample_args (datetime 2022 1 1) 2020 = [3, 4]
   \<and> quarters_done sample_args (datetime 2022 1 1) 2021 = [3, 4]"
proof -
  have h0: "2020 \<in> set (campaign_years sample_args)" by code_simp
  have h1: "2021 \<in> set (campaign_years sample_args)" by code_simp
  have t0: "takeWhile (\<lambda>q. q_start 2020 (quarters ! nat (q - 1)) \<le> datetime 2022 1 1)
             (filter (\<lambda>q. start_quarter sample_args \<le> q) [1, 2, 3, 4]) = [3, 4]" by code_simp
  have t1: "takeWhile (\<lambda>q. q_start 2021 (quarters ! nat (q - 1)) \<le> datetime 2022 1 1)
             (filter (\<lambda>q. start_quarter sample_args \<le> q) [1, 2, 3, 4]) = [3, 4]" by code_simp
  have a: "quarters_done sample_args (datetime 2022 1 1) 2020 = [3, 4]"
    by (rule trans [OF conjunct1 [OF start_quarter_applies_every_year [OF h0, of "datetime 2022 1 1"]] t0])
  have b: "quarters_done sample_args (datetime 2022 1 1) 2021 = [3, 4]"
    by (rule trans [OF conjunct1 [OF start_quarter_applies_every_year [OF h1, of "datetime 2022 1 1"]] t1])
  from h0 a b show ?thesis by (intro conjI)
qed

end
